theory Spec2Isabelle
  imports Main "HOL-Library.Sublist" "HOL-Library.Word"
begin

section \<open>Go runtime and library functions used by the group update\<close>

text \<open>
  A Go string is a sequence of bytes; it is modelled as a \<open>string\<close> (a list of 8-bit
  characters). A run-time panic of the Go program is a value of type \<open>panic\<close>, returned
  on the left of a sum.
\<close>

datatype panic = IndexOutOfRange | SliceBoundsOutOfRange | NilDereference | BadTypeAssertion

text \<open>
  \<open>strings.Split(s, sep)\<close> cuts \<open>s\<close> at every occurrence of \<open>sep\<close>, found from the left
  and not overlapping, and returns the pieces between them; a string without the
  separator comes back as the single piece \<open>[s]\<close>, the empty string as \<open>['''']\<close>.
  \<open>genSplit\<close> walks the string: where the separator starts the rest, the current
  piece ends and the scan goes on behind the separator.
  With the empty separator Go returns one piece for each UTF-8 sequence, which for
  ASCII text is one piece for each byte; the program always passes \<open>'', ''\<close>.
\<close>

fun genSplit :: "string \<Rightarrow> string \<Rightarrow> string list" where
  "genSplit sep [] = [[]]"
| "genSplit sep (c # cs) =
     (if sep \<noteq> [] \<and> prefix sep (c # cs)
      then [] # genSplit sep (drop (length sep) (c # cs))
      else (case genSplit sep cs of [] \<Rightarrow> [[c]] | t # ts \<Rightarrow> (c # t) # ts))"

definition Split :: "string \<Rightarrow> string \<Rightarrow> string list" where
  "Split s sep = (if sep = [] then map (\<lambda>c. [c]) s else genSplit sep s)"

text \<open>\<open>strings.Join(elems, sep)\<close>: the elements with \<open>sep\<close> between neighbours.\<close>

fun Join :: "string list \<Rightarrow> string \<Rightarrow> string" where
  "Join [] sep = []"
| "Join [e] sep = e"
| "Join (e # e' # es) sep = e @ sep @ Join (e' # es) sep"

section \<open>The group update of main.go\<close>

text \<open>
  \<open>appendUser\<close>: a group that shows the placeholder \<open>'':''\<close> becomes the user alone,
  any other text gets the user appended behind \<open>'', ''\<close>.
\<close>

definition appendUser :: "string \<Rightarrow> string \<Rightarrow> string" where
  "appendUser text userID = (if text = '':'' then userID else text @ '', '' @ userID)"

text \<open>\<open>contains\<close>: the range loop that returns true at the first equal element.\<close>

fun contains :: "string \<Rightarrow> string list \<Rightarrow> bool" where
  "contains text [] = False"
| "contains text (s # arr) = (if text = s then True else contains text arr)"

text \<open>
  \<open>remove\<close>: the loop sets \<open>index\<close> to the first position holding \<open>text\<close> and breaks;
  \<open>index\<close> keeps its zero value when the loop finds nothing. The result is
  \<open>append(arr[:index], arr[index+1:]...)\<close>; the slice expression \<open>arr[index+1:]\<close>
  panics when \<open>index + 1\<close> exceeds the length, which happens on the empty slice only.
\<close>

fun remove_scan :: "string \<Rightarrow> string list \<Rightarrow> nat \<Rightarrow> nat" where
  "remove_scan text [] i = 0"
| "remove_scan text (s # arr) i = (if text = s then i else remove_scan text arr (Suc i))"

definition remove :: "string \<Rightarrow> string list \<Rightarrow> panic + string list" where
  "remove text arr =
     (let index = remove_scan text arr 0
      in if length arr < index + 1 then Inl SliceBoundsOutOfRange
         else Inr (take index arr @ drop (index + 1) arr))"

text \<open>
  The first loop of \<open>updateGroups\<close>: \<open>parsedGroups\<close> starts as four nil slices and
  \<open>userIndex\<close> as \<open>-1\<close>; for each group in turn the text is split and stored at
  \<open>parsedGroups[i]\<close> (a panic when \<open>i\<close> is not below four), and \<open>userIndex\<close> is
  overwritten with \<open>i\<close> whenever the pieces contain the user. The loop has no break.
\<close>

fun scan_groups ::
  "string \<Rightarrow> string list \<Rightarrow> nat \<Rightarrow> string list list \<times> int \<Rightarrow> panic + string list list \<times> int" where
  "scan_groups user [] i st = Inr st"
| "scan_groups user (g # rest) i (parsedGroups, userIndex) =
     (if i < length parsedGroups
      then (let parsed = Split g '', ''
            in scan_groups user rest (Suc i)
                 (parsedGroups[i := parsed], if contains user parsed then int i else userIndex))
      else Inl IndexOutOfRange)"

text \<open>
  The second loop: for each index of \<open>parsedGroups\<close> the pieces are joined into
  \<open>groups[i]\<close> (a panic when \<open>groups\<close> is shorter), and an empty text is replaced by
  the placeholder.
\<close>

fun join_groups :: "string list list \<Rightarrow> nat \<Rightarrow> string list \<Rightarrow> panic + string list" where
  "join_groups [] i groups = Inr groups"
| "join_groups (p # rest) i groups =
     (if i < length groups
      then (let text = Join p '', ''
            in join_groups rest (Suc i) (groups[i := (if text = [] then '':'' else text)]))
      else Inl IndexOutOfRange)"

text \<open>\<open>groups[index] = appendUser(groups[index], user)\<close> with Go's bounds check.\<close>

definition append_at :: "string \<Rightarrow> int \<Rightarrow> string list \<Rightarrow> panic + string list" where
  "append_at user index groups =
     (if 0 \<le> index \<and> index < int (length groups)
      then Inr (groups[nat index := appendUser (groups ! nat index) user])
      else Inl IndexOutOfRange)"

definition updateGroups :: "string \<Rightarrow> int \<Rightarrow> string list \<Rightarrow> panic + string list" where
  "updateGroups user index groups =
     (case scan_groups user groups 0 (replicate 4 [], - 1) of
        Inl e \<Rightarrow> Inl e
      | Inr (parsedGroups, userIndex) \<Rightarrow>
          if userIndex = - 1 then append_at user index groups
          else if \<not> (0 \<le> userIndex \<and> userIndex < int (length parsedGroups))
          then Inl IndexOutOfRange
          else (case remove user (parsedGroups ! nat userIndex) of
                  Inl e \<Rightarrow> Inl e
                | Inr removed \<Rightarrow>
                    (case join_groups (parsedGroups[nat userIndex := removed]) 0 groups of
                       Inl e \<Rightarrow> Inl e
                     | Inr groups' \<Rightarrow>
                         if index \<noteq> userIndex then append_at user index groups'
                         else Inr groups')))"

section \<open>Notions used to state the properties\<close>

text \<open>The member tokens of a group text, and the text written back for a token list.\<close>

definition tokens :: "string \<Rightarrow> string list" where
  "tokens g = Split g '', ''"

definition serialize :: "string list \<Rightarrow> string" where
  "serialize p = (if Join p '', '' = [] then '':'' else Join p '', '')"

text \<open>The indices of the groups whose tokens contain the user, in scan order.\<close>

definition holders :: "string \<Rightarrow> string list \<Rightarrow> nat list" where
  "holders user groups = filter (\<lambda>i. contains user (tokens (groups ! i))) [0..<length groups]"

text \<open>
  A well-formed group text is the placeholder or a list of non-empty tokens joined by
  \<open>'', ''\<close>; a well-formed state has four of them.
\<close>

definition wf_group :: "string \<Rightarrow> bool" where
  "wf_group g = (g = '':'' \<or> (\<forall>t \<in> set (tokens g). t \<noteq> []))"

definition wf_groups :: "string list \<Rightarrow> bool" where
  "wf_groups groups = (length groups = 4 \<and> (\<forall>g \<in> set groups. wf_group g))"

text \<open>
  The value the first loop leaves in \<open>userIndex\<close>, and the four texts after the second
  loop, written without the loops: every text is split and joined again (which changes
  the empty text only), and the group at the last holder loses the first occurrence of
  the user.
\<close>

definition userIndex_of :: "string \<Rightarrow> string list \<Rightarrow> int" where
  "userIndex_of user groups =
     (if holders user groups = [] then - 1 else int (last (holders user groups)))"

definition rejoined :: "string \<Rightarrow> string list \<Rightarrow> string list" where
  "rejoined user gs =
     (map (\<lambda>g. if g = [] then '':'' else g) gs)
       [last (holders user gs) := serialize (remove1 user (tokens (gs ! last (holders user gs))))]"

section \<open>Claim events\<close>

text \<open>
  A click is a user text and a target index. The texts that \<open>updateGroups\<close> returns are
  written into the message, and the next click reads them from there, so a sequence of
  clicks on one message threads the four texts through \<open>updateGroups\<close>; a panic ends
  the run.
\<close>

fun run_events :: "string list \<Rightarrow> (string \<times> int) list \<Rightarrow> panic + string list" where
  "run_events groups [] = Inr groups"
| "run_events groups ((user, index) # events) =
     (case updateGroups user index groups of
        Inl e \<Rightarrow> Inl e
      | Inr groups' \<Rightarrow> run_events groups' events)"

text \<open>
  The invariant behind the membership property: four texts, no token twice in a group,
  and no token other than the placeholder in two groups.
\<close>

definition separated :: "string list \<Rightarrow> bool" where
  "separated groups =
     (length groups = 4
      \<and> (\<forall>i<4. distinct (tokens (groups ! i)))
      \<and> (\<forall>i<4. \<forall>j<4. i \<noteq> j \<longrightarrow>
            set (tokens (groups ! i)) \<inter> set (tokens (groups ! j)) \<subseteq> {'':''}))"

section \<open>The HTTP handlers of main.go\<close>

subsection \<open>Values of the Slack library\<close>

text \<open>
  The handlers read and build values of the Slack client library. Of each type the
  model keeps the fields the program touches. A Go pointer that may be nil is an
  \<open>option\<close>.
\<close>

record TextBlockObject =
  tbType :: string
  tbText :: string
  tbEmoji :: bool
  tbVerbatim :: bool

definition NewTextBlockObject :: "string \<Rightarrow> string \<Rightarrow> bool \<Rightarrow> bool \<Rightarrow> TextBlockObject" where
  "NewTextBlockObject elementType text emoji verbatim =
     \<lparr>tbType = elementType, tbText = text, tbEmoji = emoji, tbVerbatim = verbatim\<rparr>"

datatype BlockElement =
    PlainTextInput TextBlockObject string
  | OptionsSelect string TextBlockObject string string
  | Button string string TextBlockObject

text \<open>
  \<open>PlainTextInput placeholder actionID\<close>, \<open>OptionsSelect optType placeholder actionID
  initialConversation\<close>, \<open>Button actionID value text\<close>; \<open>SectionBlock text fields\<close>,
  \<open>ActionBlock blockID elements\<close>, \<open>InputBlock blockID label element\<close>.
\<close>

datatype Block =
    SectionBlock "TextBlockObject option" "TextBlockObject option list"
  | ActionBlock string "BlockElement list"
  | InputBlock string TextBlockObject BlockElement

record ModalViewRequest =
  mvType :: string
  mvTitle :: TextBlockObject
  mvClose :: TextBlockObject
  mvSubmit :: TextBlockObject
  mvBlocks :: "Block list"

record SlashCommand =
  scCommand :: string
  scTriggerID :: string

text \<open>One entry of \<open>View.State.Values\<close>: the fields of \<open>BlockAction\<close> that are read.\<close>

record ViewValue =
  vValue :: string
  vSelectedConversation :: string

text \<open>
  \<open>InteractionCallback\<close>: \<open>blockActions\<close> is \<open>ActionCallback.BlockActions\<close> (a slice of
  pointers, of which \<open>Value\<close> is read), \<open>messageBlocks\<close> is \<open>Message.Msg.Blocks.BlockSet\<close>,
  \<open>viewState\<close> is the pointer \<open>View.State\<close> with its \<open>Values\<close>, a map of maps in which
  a missing key reads as the zero value.
\<close>

record InteractionCallback =
  iType :: string
  userID :: string
  channelID :: string
  messageTimestamp :: string
  messageBlocks :: "Block list"
  blockActions :: "string option list"
  viewState :: "(string \<Rightarrow> string \<Rightarrow> ViewValue) option"

text \<open>
  What a handler sees of a request: whether \<open>verifySigningSecret\<close> returned no error,
  the result of \<open>slack.SlashCommandParse\<close> and the result of \<open>json.Unmarshal\<close> on the
  form value \<open>payload\<close> (\<open>None\<close> for an error).
\<close>

record Request =
  verified :: bool
  slashCommand :: "SlashCommand option"
  interaction :: "InteractionCallback option"

text \<open>
  The Slack client: each call either succeeds (\<open>True\<close>) or returns an error. The calls
  a handler makes are recorded in order, next to the status it passes to
  \<open>WriteHeader\<close> (\<open>None\<close> when it never does, which the HTTP server answers with 200).
  Log output is not modelled.
\<close>

record Client =
  OpenView :: "string \<Rightarrow> ModalViewRequest \<Rightarrow> bool"
  PostMessage :: "string \<Rightarrow> Block list \<Rightarrow> bool"
  UpdateMessage :: "string \<Rightarrow> string \<Rightarrow> Block list \<Rightarrow> bool"

datatype call =
    CallOpenView string ModalViewRequest
  | CallPostMessage string "Block list"
  | CallUpdateMessage string string "Block list"

type_synonym outcome = "nat option \<times> call list"

definition statusCode :: "nat option \<Rightarrow> nat" where
  "statusCode written = (case written of None \<Rightarrow> 200 | Some code \<Rightarrow> code)"

definition StatusUnauthorized :: nat where
  "StatusUnauthorized = 401"

definition StatusInternalServerError :: nat where
  "StatusInternalServerError = 500"

subsection \<open>strconv.Atoi and Go's int\<close>

text \<open>
  \<open>strconv.Atoi\<close> on a 64-bit platform: an optional sign followed by one or more decimal
  digits and nothing else; any other text is a syntax error with value 0, a number
  outside the range of \<open>int\<close> is a range error with the nearest bound as value. The
  second component says whether the error is nil. Subtraction on \<open>int\<close> wraps around.
\<close>

fun parse_digits :: "string \<Rightarrow> nat \<Rightarrow> nat option" where
  "parse_digits [] n = Some n"
| "parse_digits (c # cs) n =
     (if 48 \<le> (of_char c :: nat) \<and> (of_char c :: nat) \<le> 57
      then parse_digits cs (n * 10 + ((of_char c :: nat) - 48))
      else None)"

definition Atoi :: "string \<Rightarrow> int \<times> bool" where
  "Atoi s =
     (let (neg, ds) =
            (case s of
               [] \<Rightarrow> (False, [])
             | c # r \<Rightarrow> if c = CHR ''-'' then (True, r)
                        else if c = CHR ''+'' then (False, r) else (False, s))
      in if ds = [] then (0, False)
         else (case parse_digits ds 0 of
                 None \<Rightarrow> (0, False)
               | Some n \<Rightarrow>
                   (let v = (if neg then - int n else int n)
                    in if 2 ^ 63 - 1 < v then (2 ^ 63 - 1, False)
                       else if v < - (2 ^ 63) then (- (2 ^ 63), False)
                       else (v, True))))"

definition int_sub :: "int \<Rightarrow> int \<Rightarrow> int" where
  "int_sub a b = sint (word_of_int a - word_of_int b :: 64 word)"

subsection \<open>SlashHandler\<close>

definition makeTextInputBlock :: "string \<Rightarrow> string \<Rightarrow> string \<Rightarrow> string \<Rightarrow> Block" where
  "makeTextInputBlock title placeholder returnName blockName =
     InputBlock blockName (NewTextBlockObject ''plain_text'' title False False)
       (PlainTextInput (NewTextBlockObject ''plain_text'' placeholder False False) returnName)"

definition generateModalRequest :: ModalViewRequest where
  "generateModalRequest =
     \<lparr>mvType = ''modal'',
      mvTitle = NewTextBlockObject ''plain_text'' ''Fun fun poll time!'' False False,
      mvClose = NewTextBlockObject ''plain_text'' ''nvm'' False False,
      mvSubmit = NewTextBlockObject ''plain_text'' ''Party time!'' False False,
      mvBlocks =
        [makeTextInputBlock ''Name of Post'' ''It's time to poll!'' ''question'' ''question'',
         makeTextInputBlock ''Choice 1'' ''2 hours'' ''choice1'' ''choice1'',
         makeTextInputBlock ''Choice 2'' ''3 days'' ''choice2'' ''choice2'',
         makeTextInputBlock ''Choice 3'' ''4 months'' ''choice3'' ''choice3'',
         makeTextInputBlock ''Choice 4'' ''5 years'' ''choice4'' ''choice4'',
         InputBlock ''channel''
           (NewTextBlockObject ''plain_text'' ''channel to post in'' False False)
           (OptionsSelect ''conversations_select''
              (NewTextBlockObject ''plain_text'' ''channel to post in'' False False)
              ''channelActionID'' [])]\<rparr>"

text \<open>
  \<open>SlashHandler\<close>: 401 on a failed signature check or parse; for the command \<open>/poll\<close>
  the view is opened (an error of the call is logged only); any other command gets 500.
\<close>

definition SlashHandler :: "Client \<Rightarrow> Request \<Rightarrow> outcome" where
  "SlashHandler c r =
     (if \<not> verified r then (Some StatusUnauthorized, [])
      else (case slashCommand r of
              None \<Rightarrow> (Some StatusUnauthorized, [])
            | Some s \<Rightarrow>
                if scCommand s = ''/poll''
                then (None, [CallOpenView (scTriggerID s) generateModalRequest])
                else (Some StatusInternalServerError, [])))"

subsection \<open>ModalHandler\<close>

text \<open>
  Reading \<open>BlockSet[2].(*slack.SectionBlock).Fields[i].Text\<close>: the two index
  expressions, the type assertion and the pointer can each panic.
\<close>

definition field_text :: "Block list \<Rightarrow> nat \<Rightarrow> panic + string" where
  "field_text blockSet i =
     (if length blockSet \<le> 2 then Inl IndexOutOfRange
      else (case blockSet ! 2 of
              SectionBlock text flds \<Rightarrow>
                if length flds \<le> i then Inl IndexOutOfRange
                else (case flds ! i of
                        None \<Rightarrow> Inl NilDereference
                      | Some t \<Rightarrow> Inr (tbText t))
            | _ \<Rightarrow> Inl BadTypeAssertion))"

fun collect_texts :: "Block list \<Rightarrow> nat list \<Rightarrow> panic + string list" where
  "collect_texts blockSet [] = Inr []"
| "collect_texts blockSet (i # rest) =
     (case field_text blockSet i of
        Inl e \<Rightarrow> Inl e
      | Inr t \<Rightarrow>
          (case collect_texts blockSet rest of
             Inl e \<Rightarrow> Inl e
           | Inr ts \<Rightarrow> Inr (t # ts)))"

text \<open>
  Writing \<open>Fields[k].Text = groupTexts[v]\<close> for the pairs of the map
  \<open>{1: 0, 3: 1, 5: 2, 7: 3}\<close>. Go evaluates the index expressions and the type
  assertion on the left, then the right-hand side, and then stores through the pointer.
  The four writes go to different fields, so the order in which Go walks the map does
  not matter.
\<close>

definition set_field_text ::
  "Block list \<Rightarrow> nat \<Rightarrow> string list \<Rightarrow> nat \<Rightarrow> panic + Block list" where
  "set_field_text blockSet k groupTexts v =
     (if length blockSet \<le> 2 then Inl IndexOutOfRange
      else (case blockSet ! 2 of
              SectionBlock header flds \<Rightarrow>
                if length flds \<le> k then Inl IndexOutOfRange
                else if length groupTexts \<le> v then Inl IndexOutOfRange
                else (case flds ! k of
                        None \<Rightarrow> Inl NilDereference
                      | Some t \<Rightarrow>
                          Inr (blockSet[2 := SectionBlock header
                                 (flds[k := Some (t\<lparr>tbText := groupTexts ! v\<rparr>)])]))
            | _ \<Rightarrow> Inl BadTypeAssertion))"

fun write_texts :: "Block list \<Rightarrow> (nat \<times> nat) list \<Rightarrow> string list \<Rightarrow> panic + Block list" where
  "write_texts blockSet [] groupTexts = Inr blockSet"
| "write_texts blockSet ((k, v) # rest) groupTexts =
     (case set_field_text blockSet k groupTexts v of
        Inl e \<Rightarrow> Inl e
      | Inr blockSet' \<Rightarrow> write_texts blockSet' rest groupTexts)"

definition blockActionsCase :: "Client \<Rightarrow> InteractionCallback \<Rightarrow> panic + outcome" where
  "blockActionsCase c i =
     (let userToAdd = ''<@'' @ userID i @ ''>''
      in case blockActions i of
           [] \<Rightarrow> Inl IndexOutOfRange
         | None # _ \<Rightarrow> Inl NilDereference
         | Some v # _ \<Rightarrow>
             (let optionSelected = fst (Atoi v)
              in case collect_texts (messageBlocks i) [1, 3, 5, 7] of
                   Inl e \<Rightarrow> Inl e
                 | Inr groupTexts \<Rightarrow>
                     (case updateGroups userToAdd (int_sub optionSelected 1) groupTexts of
                        Inl e \<Rightarrow> Inl e
                      | Inr groupTexts' \<Rightarrow>
                          (case write_texts (messageBlocks i) [(1, 0), (3, 1), (5, 2), (7, 3)]
                                  groupTexts' of
                             Inl e \<Rightarrow> Inl e
                           | Inr newMessageBlocks \<Rightarrow>
                               Inr (if UpdateMessage c (channelID i) (messageTimestamp i)
                                         newMessageBlocks
                                    then None else Some StatusUnauthorized,
                                    [CallUpdateMessage (channelID i) (messageTimestamp i)
                                       newMessageBlocks])))))"

text \<open>
  The view submission: for each of \<open>''1''\<close> to \<open>''4''\<close> a button and two fields, the choice
  text and the placeholder \<open>'':''\<close>; the message goes to the selected conversation, or to
  the user when none is selected.
\<close>

fun choiceBlocks ::
  "(string \<Rightarrow> string \<Rightarrow> ViewValue) \<Rightarrow> string list \<Rightarrow> BlockElement list \<times> TextBlockObject list" where
  "choiceBlocks vals [] = ([], [])"
| "choiceBlocks vals (numStr # rest) =
     (let str = vValue (vals (''choice'' @ numStr) (''choice'' @ numStr));
          text = NewTextBlockObject ''plain_text'' str False False;
          (buttons, textBlocks) = choiceBlocks vals rest
      in (Button (''actionID'' @ numStr) numStr text # buttons,
          text # NewTextBlockObject ''mrkdwn'' '':'' False False # textBlocks))"

definition viewSubmissionCase :: "Client \<Rightarrow> InteractionCallback \<Rightarrow> panic + outcome" where
  "viewSubmissionCase c i =
     (case viewState i of
        None \<Rightarrow> Inl NilDereference
      | Some vals \<Rightarrow>
          (let (buttons, textBlocks) = choiceBlocks vals [''1'', ''2'', ''3'', ''4''];
               actionBlock = ActionBlock [] buttons;
               sectionBlock = SectionBlock None (map Some textBlocks);
               question = vValue (vals ''question'' ''question'');
               headerBlock =
                 SectionBlock (Some (NewTextBlockObject ''plain_text'' question True False)) [];
               selected = vSelectedConversation (vals ''channel'' ''channelActionID'');
               channel = (if selected = [] then userID i else selected);
               blocks = [headerBlock, actionBlock, sectionBlock]
           in Inr (if PostMessage c channel blocks then None else Some StatusUnauthorized,
                   [CallPostMessage channel blocks])))"

text \<open>
  \<open>ModalHandler\<close>: 401 on a failed signature check or a payload that does not parse,
  then the switch on the payload's type, whose default case does nothing.
\<close>

definition ModalHandler :: "Client \<Rightarrow> Request \<Rightarrow> panic + outcome" where
  "ModalHandler c r =
     (if \<not> verified r then Inr (Some StatusUnauthorized, [])
      else (case interaction r of
              None \<Rightarrow> Inr (Some StatusUnauthorized, [])
            | Some i \<Rightarrow>
                if iType i = ''block_actions'' then blockActionsCase c i
                else if iType i = ''view_submission'' then viewSubmissionCase c i
                else Inr (None, [])))"

text \<open>A client whose calls all succeed, for the examples.\<close>

definition okClient :: Client where
  "okClient = \<lparr>OpenView = (\<lambda>_ _. True), PostMessage = (\<lambda>_ _. True),
     UpdateMessage = (\<lambda>_ _ _. True)\<rparr>"

section \<open>Splitting and joining\<close>

lemma genSplit_not_Nil: "genSplit sep s \<noteq> []"
  by (induction sep s rule: genSplit.induct) (auto split: list.splits)

lemma Join_Cons: "es \<noteq> [] \<Longrightarrow> Join (e # es) sep = e @ sep @ Join es sep"
  by (cases es) auto

lemma Join_push: "Join ((c # t) # ts) sep = c # Join (t # ts) sep"
  by (cases ts) auto

lemma Join_genSplit: "Join (genSplit sep s) sep = s"
proof (induction sep s rule: genSplit.induct)
  case (1 sep)
  show ?case by simp
next
  case (2 sep c cs)
  show ?case
  proof (cases "sep \<noteq> [] \<and> prefix sep (c # cs)")
    case True
    then have r: "sep @ drop (length sep) (c # cs) = c # cs"
      by (auto simp: prefix_def)
    have "Join (genSplit sep (c # cs)) sep =
        [] @ sep @ Join (genSplit sep (drop (length sep) (c # cs))) sep"
      using True by (simp add: Join_Cons genSplit_not_Nil)
    also have "\<dots> = sep @ drop (length sep) (c # cs)"
      using 2(1)[OF True] by simp
    finally show ?thesis using r by simp
  next
    case False
    obtain t ts where tt: "genSplit sep cs = t # ts"
      using genSplit_not_Nil[of sep cs] by (cases "genSplit sep cs") auto
    have "genSplit sep (c # cs) = (c # t) # ts"
      using False tt by auto
    moreover have "Join (t # ts) sep = cs"
      using 2(2)[OF False] tt by simp
    ultimately show ?thesis by (simp add: Join_push)
  qed
qed

lemma hd_genSplit_prefix: "prefix (hd (genSplit sep s)) s"
  by (induction sep s rule: genSplit.induct) (auto split: list.splits)

lemma genSplit_nosep: "sep \<noteq> [] \<Longrightarrow> t \<in> set (genSplit sep s) \<Longrightarrow> \<not> sublist sep t"
proof (induction sep s arbitrary: t rule: genSplit.induct)
  case (1 sep)
  then show ?case by simp
next
  case (2 sep c cs)
  show ?case
  proof (cases "sep \<noteq> [] \<and> prefix sep (c # cs)")
    case True
    with 2 show ?thesis by auto
  next
    case False
    obtain u us where uu: "genSplit sep cs = u # us"
      using genSplit_not_Nil[of sep cs] by (cases "genSplit sep cs") auto
    have pu: "prefix u cs" using hd_genSplit_prefix[of sep cs] uu by simp
    from False 2 uu have "t = c # u \<or> t \<in> set us" by auto
    then show ?thesis
    proof
      assume "t \<in> set us"
      with 2 False uu show ?thesis by auto
    next
      assume t: "t = c # u"
      have nu: "\<not> sublist sep u" using 2 False uu by auto
      have "\<not> prefix sep (c # u)"
      proof
        assume "prefix sep (c # u)"
        moreover have "prefix (c # u) (c # cs)" using pu by simp
        ultimately have "prefix sep (c # cs)" by (rule prefix_order.trans)
        with False 2(3) show False by simp
      qed
      with nu t show ?thesis by (simp add: sublist_Cons_right)
    qed
  qed
qed

lemma genSplit_single: "\<not> sublist sep u \<Longrightarrow> genSplit sep u = [u]"
proof (induction u)
  case Nil
  then show ?case by simp
next
  case (Cons c cs)
  then have "\<not> prefix sep (c # cs)" and "\<not> sublist sep cs"
    by (auto simp: sublist_Cons_right)
  with Cons show ?case by simp
qed

lemma genSplit_Cons_no:
  "\<not> prefix sep (c # s) \<Longrightarrow>
   genSplit sep (c # s) = (case genSplit sep s of [] \<Rightarrow> [[c]] | t # ts \<Rightarrow> (c # t) # ts)"
  by simp

lemma prefix_sep_append:
  "prefix '', '' (c # (cs @ '', '' @ b)) = prefix '', '' (c # cs)"
  by (cases cs) auto

lemma genSplit_append_sep:
  "genSplit '', '' (a @ '', '' @ b) = genSplit '', '' a @ genSplit '', '' b"
proof (induction "'', ''" a rule: genSplit.induct)
  case 1
  show ?case by simp
next
  case (2 c cs)
  show ?case
  proof (cases "prefix '', '' (c # cs)")
    case True
    then obtain r where c: "c = CHR '',''" and cs: "cs = CHR '' '' # r"
      by (cases cs) auto
    have "genSplit '', '' (r @ '', '' @ b) = genSplit '', '' r @ genSplit '', '' b"
      using 2(1) by (simp add: c cs)
    then show ?thesis by (simp add: c cs)
  next
    case False
    then have F': "\<not> prefix '', '' (c # (cs @ '', '' @ b))"
      by (simp only: prefix_sep_append not_False_eq_True)
    obtain t ts where tt: "genSplit '', '' cs = t # ts"
      using genSplit_not_Nil[of "'', ''" cs] by (cases "genSplit '', '' cs") auto
    have ih: "genSplit '', '' (cs @ '', '' @ b) = genSplit '', '' cs @ genSplit '', '' b"
      using 2(2) False by simp
    have "genSplit '', '' ((c # cs) @ '', '' @ b) = genSplit '', '' (c # (cs @ '', '' @ b))"
      by simp
    also have "\<dots> = (case genSplit '', '' (cs @ '', '' @ b) of [] \<Rightarrow> [[c]] | t # ts \<Rightarrow> (c # t) # ts)"
      by (rule genSplit_Cons_no[OF F'])
    also have "\<dots> = (c # t) # ts @ genSplit '', '' b"
      by (subst ih) (simp add: tt)
    also have "\<dots> = genSplit '', '' (c # cs) @ genSplit '', '' b"
      by (subst genSplit_Cons_no[OF False]) (simp add: tt)
    finally show ?thesis .
  qed
qed

section \<open>The loops of the group update\<close>

lemma tokens_not_Nil: "tokens g \<noteq> []"
  by (simp add: tokens_def Split_def genSplit_not_Nil)

lemma Join_tokens: "Join (tokens g) '', '' = g"
  by (simp add: tokens_def Split_def Join_genSplit)

lemma serialize_tokens: "serialize (tokens g) = (if g = [] then '':'' else g)"
  by (simp add: serialize_def Join_tokens)

lemma tokens_nosep: "t \<in> set (tokens g) \<Longrightarrow> \<not> sublist '', '' t"
  using genSplit_nosep[of "'', ''" t g] by (simp add: tokens_def Split_def)

lemma tokens_single: "\<not> sublist '', '' u \<Longrightarrow> tokens u = [u]"
  by (simp add: tokens_def Split_def genSplit_single)

lemma tokens_append: "\<not> sublist '', '' u \<Longrightarrow> tokens (g @ '', '' @ u) = tokens g @ [u]"
  using genSplit_append_sep[of g u] genSplit_single[of "'', ''" u]
  by (simp add: tokens_def Split_def)

lemma tokens_Join:
  "ts \<noteq> [] \<Longrightarrow> \<forall>t \<in> set ts. \<not> sublist '', '' t \<Longrightarrow> tokens (Join ts '', '') = ts"
proof (induction ts "'', ''" rule: Join.induct)
  case 1
  then show ?case by simp
next
  case (2 e)
  then show ?case by (simp add: tokens_single)
next
  case (3 e e' es)
  have "tokens (Join (e # e' # es) '', '') = tokens (e @ '', '' @ Join (e' # es) '', '')"
    by simp
  also have "\<dots> = genSplit '', '' e @ genSplit '', '' (Join (e' # es) '', '')"
    using genSplit_append_sep[of e "Join (e' # es) '', ''"] by (simp add: tokens_def Split_def)
  also have "genSplit '', '' e = [e]" using 3(3) by (simp add: genSplit_single)
  also have "genSplit '', '' (Join (e' # es) '', '') = e' # es"
    using 3 by (simp add: tokens_def Split_def)
  finally show ?case by simp
qed

lemma contains_iff: "contains t arr = (t \<in> set arr)"
  by (induction arr) auto

lemma remove_scan_found:
  "t \<in> set arr \<Longrightarrow>
   \<exists>n. remove_scan t arr i = i + n \<and> n < length arr \<and>
       take n arr @ drop (Suc n) arr = remove1 t arr"
proof (induction arr arbitrary: i)
  case Nil
  then show ?case by simp
next
  case (Cons s arr)
  show ?case
  proof (cases "t = s")
    case True
    then show ?thesis by simp
  next
    case False
    with Cons.prems have "t \<in> set arr" by simp
    from Cons.IH[OF this, of "Suc i"] obtain n where
      n: "remove_scan t arr (Suc i) = Suc i + n" "n < length arr"
         "take n arr @ drop (Suc n) arr = remove1 t arr"
      by blast
    have "remove_scan t (s # arr) i = i + Suc n" using False n(1) by simp
    moreover have "Suc n < length (s # arr)" using n(2) by simp
    moreover have "take (Suc n) (s # arr) @ drop (Suc (Suc n)) (s # arr) = remove1 t (s # arr)"
      using False n(3) by simp
    ultimately show ?thesis by blast
  qed
qed

lemma remove_found: "t \<in> set arr \<Longrightarrow> remove t arr = Inr (remove1 t arr)"
  using remove_scan_found[of t arr 0] by (auto simp: remove_def Let_def)

lemma scan_groups_append:
  "scan_groups user (xs @ ys) i st =
     (case scan_groups user xs i st of Inl e \<Rightarrow> Inl e
      | Inr st' \<Rightarrow> scan_groups user ys (i + length xs) st')"
proof (induction xs arbitrary: i st)
  case Nil
  show ?case by simp
next
  case (Cons g xs)
  obtain pg ui where st: "st = (pg, ui)" by (cases st)
  show ?case by (simp add: st Cons Let_def cong: sum.case_cong)
qed

lemma holders_snoc:
  "holders user (gs @ [g]) =
     holders user gs @ (if contains user (tokens g) then [length gs] else [])"
proof -
  have "filter (\<lambda>i. contains user (tokens ((gs @ [g]) ! i))) [0..<length gs]
      = filter (\<lambda>i. contains user (tokens (gs ! i))) [0..<length gs]"
    by (rule filter_cong) (auto simp: nth_append)
  then show ?thesis by (simp add: holders_def)
qed


lemma scan_groups_prefix:
  "length gs \<le> 4 \<Longrightarrow>
   scan_groups user gs 0 (replicate 4 [], - 1) =
     Inr (map tokens gs @ replicate (4 - length gs) [], userIndex_of user gs)"
proof (induction gs rule: rev_induct)
  case Nil
  show ?case by (simp add: userIndex_of_def holders_def)
next
  case (snoc g gs)
  then have len: "length gs < 4" by simp
  have rep: "replicate (4 - length gs) ([]::string list) = [] # replicate (4 - Suc (length gs)) []"
    using len by (simp add: Suc_diff_Suc flip: replicate_Suc)
  have upd: "(map tokens gs @ replicate (4 - length gs) [])[length gs := tokens g]
      = map tokens gs @ tokens g # replicate (4 - Suc (length gs)) []"
    unfolding rep by (simp add: list_update_append)
  have ui: "(if contains user (tokens g) then int (length gs) else userIndex_of user gs)
      = userIndex_of user (gs @ [g])"
    by (simp add: userIndex_of_def holders_snoc)
  from snoc len show ?case
    by (simp add: scan_groups_append Let_def upd ui flip: tokens_def)
qed

lemma scan_groups_four:
  "length gs = 4 \<Longrightarrow>
   scan_groups user gs 0 (replicate 4 [], - 1) = Inr (map tokens gs, userIndex_of user gs)"
  using scan_groups_prefix[of gs user] by simp

lemma join_groups_gen:
  "i + length ps \<le> length gs \<Longrightarrow>
   join_groups ps i gs = Inr (take i gs @ map serialize ps @ drop (i + length ps) gs)"
proof (induction ps arbitrary: i gs)
  case Nil
  show ?case by simp
next
  case (Cons p ps)
  then have i: "i < length gs" by simp
  have "join_groups (p # ps) i gs = join_groups ps (Suc i) (gs[i := serialize p])"
    using i by (simp add: serialize_def Let_def)
  also have "\<dots> = Inr (take (Suc i) (gs[i := serialize p]) @ map serialize ps
       @ drop (Suc i + length ps) (gs[i := serialize p]))"
    using Cons.prems by (intro Cons.IH) simp
  also have "take (Suc i) (gs[i := serialize p]) = take i gs @ [serialize p]"
    using i by (simp add: take_Suc_conv_app_nth)
  also have "drop (Suc i + length ps) (gs[i := serialize p]) = drop (i + length (p # ps)) gs"
    by simp
  finally show ?case by simp
qed

lemma join_groups_all:
  "length ps = length gs \<Longrightarrow> join_groups ps 0 gs = Inr (map serialize ps)"
  using join_groups_gen[of 0 ps gs] by simp

lemma holders_bound: "k \<in> set (holders user gs) \<Longrightarrow> k < length gs \<and> user \<in> set (tokens (gs ! k))"
  by (auto simp: holders_def contains_iff)

lemma last_holder:
  assumes "holders user gs \<noteq> []"
  shows "last (holders user gs) < length gs"
    and "user \<in> set (tokens (gs ! last (holders user gs)))"
  using holders_bound[of "last (holders user gs)" user gs] assms by auto


lemma updateGroups_fresh:
  assumes "length gs = 4" "holders user gs = []"
  shows "updateGroups user index gs = append_at user index gs"
  using assms by (simp add: updateGroups_def scan_groups_four userIndex_of_def)


lemma updateGroups_found:
  assumes "length gs = 4" "holders user gs \<noteq> []"
  shows "updateGroups user index gs =
     (if index \<noteq> int (last (holders user gs)) then append_at user index (rejoined user gs)
      else Inr (rejoined user gs))"
proof -
  let ?k = "last (holders user gs)"
  have k: "?k < 4" and mem: "user \<in> set (tokens (gs ! ?k))"
    using last_holder[OF assms(2)] assms(1) by auto
  have rm: "remove user (tokens (gs ! ?k)) = Inr (remove1 user (tokens (gs ! ?k)))"
    using mem by (rule remove_found)
  have jn: "join_groups ((map tokens gs)[?k := remove1 user (tokens (gs ! ?k))]) 0 gs
      = Inr (rejoined user gs)"
    using assms(1)
    by (simp add: join_groups_all rejoined_def map_update serialize_tokens comp_def)
  show ?thesis
    using assms k
    by (simp add: updateGroups_def scan_groups_four userIndex_of_def rm jn)
qed

lemma holders_empty_iff:
  "holders user gs = [] \<longleftrightarrow> (\<forall>g \<in> set gs. \<not> contains user (tokens g))"
  unfolding holders_def filter_empty_conv
  by (metis atLeastLessThan_iff in_set_conv_nth set_upt zero_le)

lemma rejoined_length: "length (rejoined user gs) = length gs"
  by (simp add: rejoined_def)

lemma rejoined_nth:
  "i < length gs \<Longrightarrow>
   rejoined user gs ! i =
     (if i = last (holders user gs)
      then serialize (remove1 user (tokens (gs ! last (holders user gs))))
      else if gs ! i = [] then '':'' else gs ! i)"
  by (simp add: rejoined_def nth_list_update)

lemma updateGroups_found_nth:
  assumes "length gs = 4" "holders user gs \<noteq> []" "0 \<le> index" "index < 4"
  shows "\<exists>gs'. updateGroups user index gs = Inr gs' \<and> length gs' = 4 \<and>
     (\<forall>i<4. gs' ! i =
        (if i = nat index \<and> index \<noteq> int (last (holders user gs))
         then appendUser (rejoined user gs ! i) user
         else rejoined user gs ! i))"
  using updateGroups_found[OF assms(1,2), of index] assms
  by (auto simp: append_at_def rejoined_length nth_list_update)

lemma wf_group_not_Nil: "wf_group g \<Longrightarrow> g \<noteq> []"
  by (auto simp: wf_group_def tokens_def Split_def)

lemma wf_groups_nth: "wf_groups gs \<Longrightarrow> i < 4 \<Longrightarrow> gs ! i \<noteq> []"
  using wf_group_not_Nil[of "gs ! i"] by (auto simp: wf_groups_def)

lemma holders_mem: "i \<in> set (holders user gs) \<longleftrightarrow> i < length gs \<and> user \<in> set (tokens (gs ! i))"
  by (auto simp: holders_def contains_iff)

lemma serialize_not_Nil: "serialize p \<noteq> []"
  by (simp add: serialize_def)

lemma tokens_serialize:
  assumes "\<forall>t \<in> set p. \<not> sublist '', '' t"
  shows "tokens (serialize p) = (if Join p '', '' = [] then ['':''] else p)"
proof (cases "Join p '', '' = []")
  case True
  then show ?thesis by (simp add: serialize_def tokens_def Split_def)
next
  case False
  then have "p \<noteq> []" by auto
  with assms False show ?thesis by (simp add: serialize_def tokens_Join)
qed

lemma tokens_serialize_remove1:
  "tokens (serialize (remove1 u (tokens g))) =
     (if Join (remove1 u (tokens g)) '', '' = [] then ['':''] else remove1 u (tokens g))"
proof (rule tokens_serialize)
  show "\<forall>t \<in> set (remove1 u (tokens g)). \<not> sublist '', '' t"
    using tokens_nosep[of _ g] set_remove1_subset[of u "tokens g"] by blast
qed

lemma tokens_appendUser:
  assumes "\<not> sublist '', '' u"
  shows "tokens (appendUser g u) = (if g = '':'' then [u] else tokens g @ [u])"
proof (cases "g = '':''")
  case True
  with assms show ?thesis by (simp add: appendUser_def tokens_single)
next
  case False
  from assms have "tokens (g @ '', '' @ u) = tokens g @ [u]" by (rule tokens_append)
  with False show ?thesis by (simp only: appendUser_def if_False)
qed

lemma not_in_remove1: "count_list xs x = 1 \<Longrightarrow> x \<notin> set (remove1 x xs)"
proof (induction xs)
  case Nil
  then show ?case by simp
next
  case (Cons y ys)
  then show ?case by (auto simp: count_list_0_iff split: if_splits)
qed

lemma last_holder_unique:
  assumes "n < length gs" and "user \<in> set (tokens (gs ! n))"
    and "\<forall>i<length gs. i \<noteq> n \<longrightarrow> user \<notin> set (tokens (gs ! i))"
  shows "holders user gs \<noteq> [] \<and> last (holders user gs) = n"
proof -
  have "n \<in> set (holders user gs)" using assms(1,2) by (simp add: holders_mem)
  then have ne: "holders user gs \<noteq> []" by auto
  then have "last (holders user gs) \<in> set (holders user gs)" by simp
  then have "last (holders user gs) = n"
    using assms(3) by (auto simp: holders_mem)
  with ne show ?thesis by simp
qed


section \<open>The membership invariant and the handlers\<close>

lemma tokens_placeholder: "tokens '':'' = ['':'']"
  by (simp add: tokens_def Split_def)

lemma tokens_fill:
  "tokens (if g = [] then '':'' else g) = (if g = [] then ['':''] else tokens g)"
  by (simp add: tokens_placeholder)

lemma separated_init: "separated ['':'', '':'', '':'', '':'']"
proof -
  have "\<forall>i<4. ['':'', '':'', '':'', '':''] ! i = '':''"
    by (auto simp: less_Suc_eq numeral_eq_Suc)
  then show ?thesis by (simp add: separated_def tokens_placeholder)
qed

lemma separated_append:
  assumes sep: "separated gs" and absent: "\<forall>i<4. user \<notin> set (tokens (gs ! i))"
    and nosep: "\<not> sublist '', '' user" and n: "n < 4"
  shows "separated (gs[n := appendUser (gs ! n) user])"
proof -
  let ?gs = "gs[n := appendUser (gs ! n) user]"
  have len: "length gs = 4" using sep by (simp add: separated_def)
  have dis: "\<forall>i<4. distinct (tokens (gs ! i))" using sep by (simp add: separated_def)
  have disj: "\<forall>i<4. \<forall>j<4. i \<noteq> j \<longrightarrow> set (tokens (gs ! i)) \<inter> set (tokens (gs ! j)) \<subseteq> {'':''}"
    using sep by (simp add: separated_def)
  have tn: "tokens (?gs ! n) = (if gs ! n = '':'' then [user] else tokens (gs ! n) @ [user])"
    using n len by (simp add: tokens_appendUser[OF nosep])
  have other: "\<forall>i<4. i \<noteq> n \<longrightarrow> tokens (?gs ! i) = tokens (gs ! i)"
    by simp
  have d': "\<forall>i<4. distinct (tokens (?gs ! i))"
  proof (intro allI impI)
    fix i assume i: "i < (4::nat)"
    show "distinct (tokens (?gs ! i))"
    proof (cases "i = n")
      case True
      then show ?thesis using tn dis absent n by simp
    next
      case False
      then show ?thesis using other dis i by simp
    qed
  qed
  have sub: "\<forall>i<4. set (tokens (?gs ! i)) \<subseteq> set (tokens (gs ! i)) \<union> (if i = n then {user} else {})"
  proof (intro allI impI)
    fix i assume i: "i < (4::nat)"
    show "set (tokens (?gs ! i)) \<subseteq> set (tokens (gs ! i)) \<union> (if i = n then {user} else {})"
    proof (cases "i = n")
      case True
      then show ?thesis using tn by auto
    next
      case False
      then show ?thesis using other i by simp
    qed
  qed
  have j': "\<forall>i<4. \<forall>j<4. i \<noteq> j \<longrightarrow>
      set (tokens (?gs ! i)) \<inter> set (tokens (?gs ! j)) \<subseteq> {'':''}"
  proof (intro allI impI)
    fix i j assume i: "i < (4::nat)" and j: "j < (4::nat)" and ij: "i \<noteq> j"
    have a: "set (tokens (?gs ! i)) \<subseteq> set (tokens (gs ! i)) \<union> (if i = n then {user} else {})"
      using sub i by blast
    have b: "set (tokens (?gs ! j)) \<subseteq> set (tokens (gs ! j)) \<union> (if j = n then {user} else {})"
      using sub j by blast
    have c: "set (tokens (gs ! i)) \<inter> set (tokens (gs ! j)) \<subseteq> {'':''}"
      using disj i j ij by blast
    have ui: "user \<notin> set (tokens (gs ! i))" and uj: "user \<notin> set (tokens (gs ! j))"
      using absent i j by blast+
    show "set (tokens (?gs ! i)) \<inter> set (tokens (?gs ! j)) \<subseteq> {'':''}"
    proof
      fix x assume x: "x \<in> set (tokens (?gs ! i)) \<inter> set (tokens (?gs ! j))"
      then have xi: "x \<in> set (tokens (gs ! i)) \<or> (i = n \<and> x = user)"
        using a by (auto split: if_splits)
      from x have xj: "x \<in> set (tokens (gs ! j)) \<or> (j = n \<and> x = user)"
        using b by (auto split: if_splits)
      from xi xj ij ui uj c show "x \<in> {'':''}" by blast
    qed
  qed
  show ?thesis using len d' j' by (simp add: separated_def)
qed

lemma separated_rejoined:
  assumes sep: "separated gs" and ne: "holders user gs \<noteq> []" and u: "user \<noteq> '':''"
  shows "separated (rejoined user gs) \<and> (\<forall>i<4. user \<notin> set (tokens (rejoined user gs ! i)))"
proof -
  let ?k = "last (holders user gs)"
  let ?r = "rejoined user gs"
  have len: "length gs = 4" using sep by (simp add: separated_def)
  have dis: "\<forall>i<4. distinct (tokens (gs ! i))" using sep by (simp add: separated_def)
  have disj: "\<forall>i<4. \<forall>j<4. i \<noteq> j \<longrightarrow> set (tokens (gs ! i)) \<inter> set (tokens (gs ! j)) \<subseteq> {'':''}"
    using sep by (simp add: separated_def)
  have k: "?k < 4" and mem: "user \<in> set (tokens (gs ! ?k))"
    using last_holder[OF ne] len by auto
  have rk: "tokens (?r ! ?k) =
      (if Join (remove1 user (tokens (gs ! ?k))) '', '' = [] then ['':'']
       else remove1 user (tokens (gs ! ?k)))"
    using k len by (simp add: rejoined_nth tokens_serialize_remove1)
  have ri: "\<forall>i<4. i \<noteq> ?k \<longrightarrow> tokens (?r ! i) = (if gs ! i = [] then ['':''] else tokens (gs ! i))"
    using len by (simp add: rejoined_nth tokens_placeholder)
  have d': "\<forall>i<4. distinct (tokens (?r ! i))"
  proof (intro allI impI)
    fix i assume i: "i < (4::nat)"
    show "distinct (tokens (?r ! i))"
    proof (cases "i = ?k")
      case True
      then show ?thesis using rk dis k by simp
    next
      case False
      then show ?thesis using ri dis i by simp
    qed
  qed
  have sub: "\<forall>i<4. set (tokens (?r ! i)) \<subseteq> set (tokens (gs ! i)) \<union> {'':''}"
  proof (intro allI impI)
    fix i assume i: "i < (4::nat)"
    show "set (tokens (?r ! i)) \<subseteq> set (tokens (gs ! i)) \<union> {'':''}"
    proof (cases "i = ?k")
      case True
      then show ?thesis using rk set_remove1_subset[of user "tokens (gs ! ?k)"] by auto
    next
      case False
      then show ?thesis using ri i by auto
    qed
  qed
  have gone: "\<forall>i<4. user \<notin> set (tokens (?r ! i))"
  proof (intro allI impI)
    fix i assume i: "i < (4::nat)"
    show "user \<notin> set (tokens (?r ! i))"
    proof (cases "i = ?k")
      case True
      have "distinct (tokens (gs ! ?k))" using dis k by blast
      then have "user \<notin> set (remove1 user (tokens (gs ! ?k)))" by simp
      then show ?thesis using True rk u by simp
    next
      case False
      have "set (tokens (gs ! i)) \<inter> set (tokens (gs ! ?k)) \<subseteq> {'':''}"
        using disj i k False by blast
      then have "user \<notin> set (tokens (gs ! i))" using mem u by blast
      then show ?thesis using sub i u by blast
    qed
  qed
  have j': "\<forall>i<4. \<forall>j<4. i \<noteq> j \<longrightarrow>
      set (tokens (?r ! i)) \<inter> set (tokens (?r ! j)) \<subseteq> {'':''}"
  proof (intro allI impI)
    fix i j assume i: "i < (4::nat)" and j: "j < (4::nat)" and ij: "i \<noteq> j"
    have "set (tokens (gs ! i)) \<inter> set (tokens (gs ! j)) \<subseteq> {'':''}"
      using disj i j ij by blast
    moreover have "set (tokens (?r ! i)) \<subseteq> set (tokens (gs ! i)) \<union> {'':''}"
      using sub i by blast
    moreover have "set (tokens (?r ! j)) \<subseteq> set (tokens (gs ! j)) \<union> {'':''}"
      using sub j by blast
    ultimately show "set (tokens (?r ! i)) \<inter> set (tokens (?r ! j)) \<subseteq> {'':''}"
      by blast
  qed
  have "length ?r = 4" using len by (simp add: rejoined_length)
  then have "separated ?r" using d' j' by (simp add: separated_def)
  with gone show ?thesis by simp
qed

lemma separated_step:
  assumes sep: "separated gs" and u: "user \<noteq> '':''" and nosep: "\<not> sublist '', '' user"
    and lo: "0 \<le> index" and hi: "index < 4"
  shows "\<exists>gs'. updateGroups user index gs = Inr gs' \<and> separated gs'"
proof (cases "holders user gs = []")
  case True
  have len: "length gs = 4" using sep by (simp add: separated_def)
  have absent: "\<forall>i<4. user \<notin> set (tokens (gs ! i))"
    using True len by (simp add: holders_empty_iff contains_iff)
  have "updateGroups user index gs = Inr (gs[nat index := appendUser (gs ! nat index) user])"
    using updateGroups_fresh[OF len True, of index] lo hi len by (simp add: append_at_def)
  moreover have "separated (gs[nat index := appendUser (gs ! nat index) user])"
    using sep absent nosep by (rule separated_append) (use lo hi in simp)
  ultimately show ?thesis by blast
next
  case False
  have len: "length gs = 4" using sep by (simp add: separated_def)
  have r: "separated (rejoined user gs)"
    and gone: "\<forall>i<4. user \<notin> set (tokens (rejoined user gs ! i))"
    using separated_rejoined[OF sep False u] by simp_all
  show ?thesis
  proof (cases "index = int (last (holders user gs))")
    case True
    then have "updateGroups user index gs = Inr (rejoined user gs)"
      using updateGroups_found[OF len False, of index] by simp
    with r show ?thesis by blast
  next
    case ne: False
    have "updateGroups user index gs
        = Inr ((rejoined user gs)[nat index := appendUser (rejoined user gs ! nat index) user])"
      using updateGroups_found[OF len False, of index] ne lo hi len
      by (simp add: append_at_def rejoined_length)
    moreover have "separated ((rejoined user gs)[nat index := appendUser (rejoined user gs ! nat index) user])"
      using r gone nosep by (rule separated_append) (use lo hi in simp)
    ultimately show ?thesis by blast
  qed
qed

lemma separated_holders:
  assumes "separated gs" and "u \<noteq> '':''"
  shows "length (holders u gs) \<le> 1"
proof (rule ccontr)
  assume "\<not> length (holders u gs) \<le> 1"
  then obtain a b rest where h: "holders u gs = a # b # rest"
    by (cases "holders u gs"; cases "tl (holders u gs)") auto
  have "distinct (holders u gs)" by (simp add: holders_def)
  then have ab: "a \<noteq> b" using h by simp
  have len: "length gs = 4" using assms(1) by (simp add: separated_def)
  have "a \<in> set (holders u gs)" "b \<in> set (holders u gs)" using h by simp_all
  then have a: "a < 4" "u \<in> set (tokens (gs ! a))" and b: "b < 4" "u \<in> set (tokens (gs ! b))"
    using len by (simp_all add: holders_mem)
  have "set (tokens (gs ! a)) \<inter> set (tokens (gs ! b)) \<subseteq> {'':''}"
    using assms(1) a(1) b(1) ab by (simp add: separated_def)
  with a(2) b(2) assms(2) show False by blast
qed

lemma run_events_separated:
  assumes "separated gs"
    and "\<forall>e \<in> set events. fst e \<noteq> '':'' \<and> \<not> sublist '', '' (fst e) \<and> 0 \<le> snd e \<and> snd e \<le> 3"
  shows "\<exists>gs'. run_events gs events = Inr gs' \<and> separated gs'"
  using assms
proof (induction events arbitrary: gs)
  case Nil
  then show ?case by simp
next
  case (Cons e events)
  obtain user index where e: "e = (user, index)" by (cases e)
  have "\<exists>gs1. updateGroups user index gs = Inr gs1 \<and> separated gs1"
    using Cons.prems e by (intro separated_step) auto
  then obtain gs1 where gs1: "updateGroups user index gs = Inr gs1" "separated gs1" by blast
  have "\<exists>gs'. run_events gs1 events = Inr gs' \<and> separated gs'"
    using Cons.prems(2) by (intro Cons.IH[OF gs1(2)]) simp
  then show ?case using gs1(1) e by simp
qed








section \<open>The claims\<close>

text \<open>
  Claim C6. When the user is among the tokens of none of the four groups (no holder),
  \<open>updateGroups\<close> returns the groups with \<open>appendUser\<close> applied to the target group and
  nothing else changed: a target showing the placeholder \<open>'':''\<close> becomes the user alone,
  any other target text gets \<open>'', ''\<close> and the user appended. On four placeholders, user
  Bob and index 1 the result is \<open>['':'', ''Bob'', '':'', '':'']\<close>. The shape of the four
  texts plays no role, so the theorem asks for four groups only.
\<close>

theorem fresh_claim_appends:
  assumes "length groups = 4"
    and "holders user groups = []"
    and "0 \<le> index" and "index < 4"
  shows "updateGroups user index groups
           = Inr (groups[nat index := appendUser (groups ! nat index) user])
       \<and> (groups ! nat index = '':'' \<longrightarrow> appendUser (groups ! nat index) user = user)
       \<and> (groups ! nat index \<noteq> '':'' \<longrightarrow>
            appendUser (groups ! nat index) user = groups ! nat index @ '', '' @ user)
       \<and> updateGroups ''Bob'' 1 ['':'', '':'', '':'', '':'']
           = Inr ['':'', ''Bob'', '':'', '':'']"
proof -
  have "updateGroups user index groups = append_at user index groups"
    using assms(1,2) by (rule updateGroups_fresh)
  moreover have "append_at user index groups
      = Inr (groups[nat index := appendUser (groups ! nat index) user])"
    using assms by (simp add: append_at_def)
  moreover have "updateGroups ''Bob'' 1 ['':'', '':'', '':'', '':'']
           = Inr ['':'', ''Bob'', '':'', '':'']"
    by code_simp
  ultimately show ?thesis by (simp add: appendUser_def)
qed

theorem fresh_claim_appends_witness:
  "length [''Ann'', '':'', '':'', '':''] = 4
   \<and> holders ''Bob'' [''Ann'', '':'', '':'', '':''] = []
   \<and> (0::int) \<le> 0 \<and> (0::int) < 4
   \<and> updateGroups ''Bob'' 0 [''Ann'', '':'', '':'', '':''] = Inr [''Ann, Bob'', '':'', '':'', '':'']"
proof -
  have h1: "length [''Ann'', '':'', '':'', '':''] = 4" by simp
  have h2: "holders ''Bob'' [''Ann'', '':'', '':'', '':''] = []"
    by code_simp
  have h3: "(0::int) \<le> 0" and h4: "(0::int) < 4" by simp_all
  from fresh_claim_appends[OF h1 h2 h3 h4] h1 h2 show ?thesis
    by (simp add: appendUser_def)
qed

text \<open>
  Claim C7. The group the user is removed from (the last holder \<open>k\<close>) loses the first
  occurrence of the user's token and nothing else: when its tokens are \<open>xs @ user # ys\<close>
  with the user not in \<open>xs\<close>, \<open>remove\<close> returns \<open>xs @ ys\<close>, whatever \<open>ys\<close> holds, and
  the group's text in the result is the serialisation of \<open>xs @ ys\<close>. On
  \<open>[''Alice, Bob'', '':'', '':'', '':'']\<close>, user Alice and index 1 the result is
  \<open>[''Bob'', ''Alice'', '':'', '':'']\<close>.
\<close>

theorem remove_first_occurrence:
  assumes "length groups = 4" and "0 \<le> index" and "index < 4"
    and "holders user groups \<noteq> []" and "k = last (holders user groups)"
    and "tokens (groups ! k) = xs @ user # ys" and "user \<notin> set xs"
  shows "remove user (tokens (groups ! k)) = Inr (xs @ ys)
       \<and> (\<exists>gs. updateGroups user index groups = Inr gs \<and> gs ! k = serialize (xs @ ys))
       \<and> updateGroups ''Alice'' 1 [''Alice, Bob'', '':'', '':'', '':'']
           = Inr [''Bob'', ''Alice'', '':'', '':'']"
proof -
  have r1: "remove1 user (tokens (groups ! k)) = xs @ ys"
    using assms(6,7) by (simp add: remove1_append)
  have rm: "remove user (tokens (groups ! k)) = Inr (xs @ ys)"
    using remove_found[of user "tokens (groups ! k)"] assms(6) r1 by simp
  have k: "k < 4" using last_holder(1)[OF assms(4)] assms(1,5) by simp
  have rj: "rejoined user groups ! k = serialize (xs @ ys)"
    using k assms(1,5) r1 by (simp add: rejoined_def)
  have len: "length (rejoined user groups) = 4"
    using assms(1) by (simp add: rejoined_def)
  have "\<exists>gs. updateGroups user index groups = Inr gs \<and> gs ! k = serialize (xs @ ys)"
  proof (cases "index = int k")
    case True
    then show ?thesis
      using updateGroups_found[OF assms(1,4), of index] rj assms(5) by simp
  next
    case False
    then have "nat index \<noteq> k" using assms(2) by auto
    then show ?thesis
      using updateGroups_found[OF assms(1,4), of index] rj assms(2,3,5) False len
      by (simp add: append_at_def)
  qed
  moreover have "updateGroups ''Alice'' 1 [''Alice, Bob'', '':'', '':'', '':'']
           = Inr [''Bob'', ''Alice'', '':'', '':'']"
    by code_simp
  ultimately show ?thesis using rm by simp
qed

theorem remove_first_occurrence_witness:
  "length [''Al, Bo, Al'', '':'', '':'', '':''] = 4 \<and> (0::int) \<le> 1 \<and> (1::int) < 4
   \<and> holders ''Al'' [''Al, Bo, Al'', '':'', '':'', '':''] \<noteq> []
   \<and> 0 = last (holders ''Al'' [''Al, Bo, Al'', '':'', '':'', '':''])
   \<and> tokens ([''Al, Bo, Al'', '':'', '':'', '':''] ! 0) = [] @ ''Al'' # [''Bo'', ''Al'']
   \<and> ''Al'' \<notin> set []
   \<and> remove ''Al'' (tokens ([''Al, Bo, Al'', '':'', '':'', '':''] ! 0)) = Inr [''Bo'', ''Al'']
   \<and> (\<exists>gs. updateGroups ''Al'' 1 [''Al, Bo, Al'', '':'', '':'', '':''] = Inr gs
          \<and> gs ! 0 = ''Bo, Al'')"
proof -
  have h1: "length [''Al, Bo, Al'', '':'', '':'', '':''] = 4" by simp
  have h2: "(0::int) \<le> 1" and h3: "(1::int) < 4" by simp_all
  have h4: "holders ''Al'' [''Al, Bo, Al'', '':'', '':'', '':''] \<noteq> []" by code_simp
  have h5: "0 = last (holders ''Al'' [''Al, Bo, Al'', '':'', '':'', '':''])" by code_simp
  have h6: "tokens ([''Al, Bo, Al'', '':'', '':'', '':''] ! 0) = [] @ ''Al'' # [''Bo'', ''Al'']"
    by code_simp
  have h7: "''Al'' \<notin> set []" by simp
  have s: "serialize ([] @ [''Bo'', ''Al'']) = ''Bo, Al''" by code_simp
  from remove_first_occurrence[OF h1 h2 h3 h4 h5 h6 h7] h1 h4 h5 h6 s show ?thesis
    by simp
qed

text \<open>
  Claim C1 says the group taken as current is the first holder in scan order. With Bob
  in groups 0 and 1 the loop leaves \<open>userIndex = 1\<close>: a click on index 0 removes Bob
  from group 1 and appends him to group 0, where a first-holder rule would have
  toggled him off group 0.
\<close>

theorem current_is_first_counterexample:
  "holders ''Bob'' [''Bob'', ''Bob'', '':'', '':''] = [0, 1]
   \<and> scan_groups ''Bob'' [''Bob'', ''Bob'', '':'', '':''] 0 (replicate 4 [], - 1)
       = Inr ([[''Bob''], [''Bob''], ['':''], ['':'']], 1)
   \<and> updateGroups ''Bob'' 0 [''Bob'', ''Bob'', '':'', '':'']
       = Inr [''Bob, Bob'', '':'', '':'', '':'']"
  by code_simp

text \<open>
  Claim C1, amended. When the user is among the tokens of more than one of the four
  groups, the loop leaves in \<open>userIndex\<close> the last holder in scan order 0 to 3 (each
  later holder overwrites the earlier one), the call returns four texts without a
  panic, and the group at the last holder is the one that loses the first occurrence of
  the user.
\<close>

theorem current_is_last_holder:
  assumes "length groups = 4" and "1 < length (holders user groups)"
    and "0 \<le> index" and "index < 4"
  shows "scan_groups user groups 0 (replicate 4 [], - 1)
           = Inr (map tokens groups, int (last (holders user groups)))
       \<and> (\<exists>gs. updateGroups user index groups = Inr gs \<and> length gs = 4 \<and>
             gs ! last (holders user groups)
               = serialize (remove1 user (tokens (groups ! last (holders user groups)))))"
proof -
  have ne: "holders user groups \<noteq> []" using assms(2) by auto
  have "scan_groups user groups 0 (replicate 4 [], - 1)
           = Inr (map tokens groups, int (last (holders user groups)))"
    using scan_groups_four[OF assms(1), of user] ne by (simp add: userIndex_of_def)
  moreover have k: "last (holders user groups) < 4"
    using last_holder(1)[OF ne] assms(1) by simp
  moreover obtain gs where "updateGroups user index groups = Inr gs" "length gs = 4"
    "\<forall>i<4. gs ! i =
        (if i = nat index \<and> index \<noteq> int (last (holders user groups))
         then appendUser (rejoined user groups ! i) user
         else rejoined user groups ! i)"
    using updateGroups_found_nth[OF assms(1) ne assms(3,4)] by blast
  ultimately show ?thesis
    using assms(1,3) by (auto simp: rejoined_nth)
qed

theorem current_is_last_holder_witness:
  "length [''Bob'', ''Bob'', '':'', '':''] = 4
   \<and> 1 < length (holders ''Bob'' [''Bob'', ''Bob'', '':'', '':''])
   \<and> (0::int) \<le> 0 \<and> (0::int) < 4
   \<and> last (holders ''Bob'' [''Bob'', ''Bob'', '':'', '':'']) = 1
   \<and> scan_groups ''Bob'' [''Bob'', ''Bob'', '':'', '':''] 0 (replicate 4 [], - 1)
       = Inr (map tokens [''Bob'', ''Bob'', '':'', '':''], 1)
   \<and> (\<exists>gs. updateGroups ''Bob'' 0 [''Bob'', ''Bob'', '':'', '':''] = Inr gs \<and> length gs = 4
          \<and> gs ! 1 = '':'')"
proof -
  have h1: "length [''Bob'', ''Bob'', '':'', '':''] = 4" by simp
  have h2: "1 < length (holders ''Bob'' [''Bob'', ''Bob'', '':'', '':''])" by code_simp
  have h3: "(0::int) \<le> 0" and h4: "(0::int) < 4" by simp_all
  have l: "last (holders ''Bob'' [''Bob'', ''Bob'', '':'', '':'']) = 1" by code_simp
  have s: "serialize (remove1 ''Bob'' (tokens ([''Bob'', ''Bob'', '':'', '':''] ! 1))) = '':''"
    by code_simp
  from current_is_last_holder[OF h1 h2 h3 h4] h1 h2 show ?thesis
    unfolding l s by simp
qed

text \<open>
  Claim C5. On a well-formed state where exactly one group \<open>k\<close> holds the user and
  \<open>k\<close> is not the target index, \<open>updateGroups\<close> returns the groups with the user
  removed from group \<open>k\<close> (its first occurrence; the text is the serialisation of the
  remaining tokens) and appended to the target group by \<open>appendUser\<close>, the other two
  texts unchanged. On \<open>[''Alice'', '':'', '':'', '':'']\<close>, user Alice and index 2 the
  result is \<open>['':'', '':'', ''Alice'', '':'']\<close>.
\<close>

theorem move_between_groups:
  assumes "wf_groups groups" and "holders user groups = [k]" and "index \<noteq> int k"
    and "0 \<le> index" and "index < 4"
  shows "updateGroups user index groups
           = Inr (groups[k := serialize (remove1 user (tokens (groups ! k))),
                         nat index := appendUser (groups ! nat index) user])
       \<and> updateGroups ''Alice'' 2 [''Alice'', '':'', '':'', '':'']
           = Inr ['':'', '':'', ''Alice'', '':'']"
proof -
  have len: "length groups = 4" using assms(1) by (simp add: wf_groups_def)
  have ne: "holders user groups \<noteq> []" and last: "last (holders user groups) = k"
    using assms(2) by simp_all
  have nk: "nat index \<noteq> k" using assms(3,4) by auto
  obtain gs where gs: "updateGroups user index groups = Inr gs" "length gs = 4"
    "\<forall>i<4. gs ! i =
        (if i = nat index \<and> index \<noteq> int (last (holders user groups))
         then appendUser (rejoined user groups ! i) user
         else rejoined user groups ! i)"
    using updateGroups_found_nth[OF len ne assms(4,5)] by blast
  have "gs = groups[k := serialize (remove1 user (tokens (groups ! k))),
                    nat index := appendUser (groups ! nat index) user]"
  proof (rule nth_equalityI)
    show "length gs = length (groups[k := serialize (remove1 user (tokens (groups ! k))),
                    nat index := appendUser (groups ! nat index) user])"
      using gs(2) len by simp
  next
    fix i assume "i < length gs"
    then have i: "i < 4" using gs(2) by simp
    then show "gs ! i = groups[k := serialize (remove1 user (tokens (groups ! k))),
                    nat index := appendUser (groups ! nat index) user] ! i"
      using gs(3) len last nk assms(3) wf_groups_nth[OF assms(1) i]
      by (auto simp: rejoined_nth nth_list_update)
  qed
  moreover have "updateGroups ''Alice'' 2 [''Alice'', '':'', '':'', '':'']
           = Inr ['':'', '':'', ''Alice'', '':'']"
    by code_simp
  ultimately show ?thesis using gs(1) by simp
qed

theorem move_between_groups_witness:
  "wf_groups [''Al, Bo'', ''Cy'', '':'', '':''] \<and> holders ''Bo'' [''Al, Bo'', ''Cy'', '':'', '':''] = [0]
   \<and> (1::int) \<noteq> int 0 \<and> (0::int) \<le> 1 \<and> (1::int) < 4
   \<and> updateGroups ''Bo'' 1 [''Al, Bo'', ''Cy'', '':'', '':''] = Inr [''Al'', ''Cy, Bo'', '':'', '':'']"
proof -
  have h1: "wf_groups [''Al, Bo'', ''Cy'', '':'', '':'']" by code_simp
  have h2: "holders ''Bo'' [''Al, Bo'', ''Cy'', '':'', '':''] = [0]" by code_simp
  have h3: "(1::int) \<noteq> int 0" and h4: "(0::int) \<le> 1" and h5: "(1::int) < 4" by simp_all
  have s: "serialize (remove1 ''Bo'' (tokens ''Al, Bo'')) = ''Al''" by code_simp
  from move_between_groups[OF h1 h2 h3 h4 h5] h1 h2 s show ?thesis
    by (simp add: appendUser_def)
qed

text \<open>
  Claim C4 says that after a toggle-off the user is in none of the four groups. Two
  well-formed inputs where the user is found at the target index and stays: a group
  that lists Bob twice keeps the second Bob, and a click by a user whose text is the
  placeholder \<open>'':''\<close> empties the group, whose text then is the placeholder again.
\<close>

theorem toggle_off_counterexample:
  "wf_groups [''Bob, Bob'', '':'', '':'', '':'']
   \<and> holders ''Bob'' [''Bob, Bob'', '':'', '':'', '':''] = [0]
   \<and> updateGroups ''Bob'' 0 [''Bob, Bob'', '':'', '':'', '':''] = Inr [''Bob'', '':'', '':'', '':'']
   \<and> holders ''Bob'' [''Bob'', '':'', '':'', '':''] = [0]
   \<and> wf_groups [''Al'', '':'', ''Bo'', ''Cy'']
   \<and> holders '':'' [''Al'', '':'', ''Bo'', ''Cy''] = [1]
   \<and> updateGroups '':'' 1 [''Al'', '':'', ''Bo'', ''Cy''] = Inr [''Al'', '':'', ''Bo'', ''Cy'']
   \<and> holders '':'' [''Al'', '':'', ''Bo'', ''Cy''] \<noteq> []"
  by code_simp

text \<open>
  Claim C4, amended. On a well-formed state where the target group is the only holder
  of the user, the user's token occurs exactly once in it and the user is not the
  placeholder \<open>'':''\<close>, \<open>updateGroups\<close> returns the groups with the user removed from
  the target group and nothing else changed; the user is then in none of the four
  groups, no text of the result is empty, and a target group left without tokens shows
  \<open>'':''\<close>. On \<open>['':'', ''Bob'', '':'', '':'']\<close>, user Bob and index 1 the result is
  four placeholders.
\<close>

theorem toggle_off:
  assumes "wf_groups groups" and "0 \<le> index" and "index < 4"
    and "holders user groups = [nat index]"
    and "count_list (tokens (groups ! nat index)) user = 1"
    and "user \<noteq> '':''"
  shows "(\<exists>gs. updateGroups user index groups = Inr gs
            \<and> gs = groups[nat index := serialize (remove1 user (tokens (groups ! nat index)))]
            \<and> holders user gs = []
            \<and> (\<forall>g \<in> set gs. g \<noteq> [])
            \<and> (remove1 user (tokens (groups ! nat index)) = [] \<longrightarrow> gs ! nat index = '':''))
       \<and> updateGroups ''Bob'' 1 ['':'', ''Bob'', '':'', '':''] = Inr ['':'', '':'', '':'', '':'']"
proof -
  let ?n = "nat index"
  let ?new = "serialize (remove1 user (tokens (groups ! ?n)))"
  let ?gs = "groups[?n := ?new]"
  have len: "length groups = 4" using assms(1) by (simp add: wf_groups_def)
  have n: "?n < 4" using assms(2,3) by simp
  have ne: "holders user groups \<noteq> []" and last: "last (holders user groups) = ?n"
    using assms(4) by simp_all
  have idx: "index = int (last (holders user groups))" using last assms(2) by simp
  obtain gs where gs: "updateGroups user index groups = Inr gs" "length gs = 4"
    and gs0: "\<forall>i<4. gs ! i =
        (if i = nat index \<and> index \<noteq> int (last (holders user groups))
         then appendUser (rejoined user groups ! i) user
         else rejoined user groups ! i)"
    using updateGroups_found_nth[OF len ne assms(2,3)] by blast
  have gs3: "\<forall>i<4. gs ! i = rejoined user groups ! i"
    using gs0 idx by presburger
  have eq: "gs = ?gs"
  proof (rule nth_equalityI)
    show "length gs = length ?gs" using gs(2) len by simp
  next
    fix i assume "i < length gs"
    then have i: "i < 4" using gs(2) by simp
    then show "gs ! i = ?gs ! i"
      using gs3 len last wf_groups_nth[OF assms(1) i]
      by (auto simp: rejoined_nth nth_list_update)
  qed
  have absent: "user \<notin> set (tokens (?gs ! i))" if i: "i < 4" for i
  proof (cases "i = ?n")
    case True
    have "user \<notin> set (remove1 user (tokens (groups ! ?n)))"
      using assms(5) by (rule not_in_remove1)
    then have "user \<notin> set (tokens ?new)"
      using assms(6) by (simp add: tokens_serialize_remove1)
    then show ?thesis using True n len by simp
  next
    case False
    then have "i \<notin> set (holders user groups)" using assms(4) by simp
    then show ?thesis using False i len by (simp add: holders_mem)
  qed
  have h: "holders user ?gs = []"
    using absent len by (auto simp: holders_def filter_empty_conv contains_iff)
  have nonempty: "\<forall>g \<in> set ?gs. g \<noteq> []"
  proof
    fix g assume "g \<in> set ?gs"
    then obtain i where i: "i < 4" "g = ?gs ! i"
      using len by (auto simp: in_set_conv_nth)
    then show "g \<noteq> []"
      using wf_groups_nth[OF assms(1) i(1)] serialize_not_Nil len
      by (cases "i = ?n") (simp_all add: nth_list_update)
  qed
  have e: "remove1 user (tokens (groups ! ?n)) = [] \<longrightarrow> ?gs ! ?n = '':''"
    using n len by (simp add: serialize_def)
  have "updateGroups ''Bob'' 1 ['':'', ''Bob'', '':'', '':''] = Inr ['':'', '':'', '':'', '':'']"
    by code_simp
  with gs(1) eq h nonempty e show ?thesis by blast
qed

theorem toggle_off_witness:
  "wf_groups [''Al, Bo'', ''Cy'', '':'', '':''] \<and> (0::int) \<le> 1 \<and> (1::int) < 4
   \<and> holders ''Cy'' [''Al, Bo'', ''Cy'', '':'', '':''] = [nat 1]
   \<and> count_list (tokens ([''Al, Bo'', ''Cy'', '':'', '':''] ! nat 1)) ''Cy'' = 1
   \<and> ''Cy'' \<noteq> '':''
   \<and> updateGroups ''Cy'' 1 [''Al, Bo'', ''Cy'', '':'', '':''] = Inr [''Al, Bo'', '':'', '':'', '':'']
   \<and> holders ''Cy'' [''Al, Bo'', '':'', '':'', '':''] = []"
proof -
  have h1: "wf_groups [''Al, Bo'', ''Cy'', '':'', '':'']" by code_simp
  have h2: "(0::int) \<le> 1" and h3: "(1::int) < 4" by simp_all
  have h4: "holders ''Cy'' [''Al, Bo'', ''Cy'', '':'', '':''] = [nat 1]" by code_simp
  have h5: "count_list (tokens ([''Al, Bo'', ''Cy'', '':'', '':''] ! nat 1)) ''Cy'' = 1"
    by code_simp
  have h6: "''Cy'' \<noteq> '':''" by simp
  have s: "[''Al, Bo'', ''Cy'', '':'', '':''][nat 1 :=
      serialize (remove1 ''Cy'' (tokens ([''Al, Bo'', ''Cy'', '':'', '':''] ! nat 1)))]
      = [''Al, Bo'', '':'', '':'', '':'']" by code_simp
  from toggle_off[OF h1 h2 h3 h4 h5 h6] h1 h4 h5 show ?thesis
    unfolding s by auto
qed

text \<open>
  Claim C10 says that the toggle-off and move paths rewrite a text whose separators are
  spaced differently. Splitting at \<open>'', ''\<close> and joining with \<open>'', ''\<close> gives every text
  back: \<open>''Al,Bo''\<close> and \<open>''Di ,  Ed''\<close> come out of both paths as they went in.
\<close>

theorem respacing_counterexample:
  "updateGroups ''Cy'' 1 [''Al,Bo'', ''Cy'', ''Di ,  Ed'', '':'']
     = Inr [''Al,Bo'', '':'', ''Di ,  Ed'', '':'']
   \<and> updateGroups ''Cy'' 3 [''Al,Bo'', ''Cy'', ''Di ,  Ed'', '':'']
     = Inr [''Al,Bo'', '':'', ''Di ,  Ed'', ''Cy'']"
  by code_simp

text \<open>
  Claim C10, amended. For a group \<open>i\<close> other than the target: when no group holds the
  user, the result has the text of group \<open>i\<close> unchanged; when some group holds the
  user and \<open>i\<close> is not the last holder, the text has been split and joined again,
  which gives back the same text (for every text, whatever its spacing), except that
  an empty text is replaced by the placeholder \<open>'':''\<close>.
\<close>

theorem other_groups_pass_through:
  assumes "length groups = 4" and "0 \<le> index" and "index < 4"
    and "i < 4" and "i \<noteq> nat index"
  shows "\<exists>gs. updateGroups user index groups = Inr gs
           \<and> (holders user groups = [] \<longrightarrow> gs ! i = groups ! i)
           \<and> (holders user groups \<noteq> [] \<and> i \<noteq> last (holders user groups) \<longrightarrow>
                gs ! i = (if groups ! i = [] then '':'' else groups ! i)
                \<and> Join (Split (groups ! i) '', '') '', '' = groups ! i)"
proof (cases "holders user groups = []")
  case True
  then have "updateGroups user index groups = append_at user index groups"
    using assms(1) by (simp add: updateGroups_fresh)
  then show ?thesis
    using True assms by (simp add: append_at_def)
next
  case False
  obtain gs where gs: "updateGroups user index groups = Inr gs" "length gs = 4"
    and gs0: "\<forall>i<4. gs ! i =
        (if i = nat index \<and> index \<noteq> int (last (holders user groups))
         then appendUser (rejoined user groups ! i) user
         else rejoined user groups ! i)"
    using updateGroups_found_nth[OF assms(1) False assms(2,3)] by blast
  have "gs ! i = rejoined user groups ! i" using gs0 assms(4,5) by simp
  then show ?thesis
    using gs(1) False assms(1,4) Join_tokens[of "groups ! i"]
    by (auto simp: rejoined_nth tokens_def)
qed

theorem other_groups_pass_through_witness:
  "length [''Al,Bo'', ''Cy'', [], '':''] = 4 \<and> (0::int) \<le> 1 \<and> (1::int) < 4
   \<and> (2::nat) < 4 \<and> (2::nat) \<noteq> nat 1
   \<and> holders ''Cy'' [''Al,Bo'', ''Cy'', [], '':''] \<noteq> []
   \<and> 2 \<noteq> last (holders ''Cy'' [''Al,Bo'', ''Cy'', [], '':''])
   \<and> (\<exists>gs. updateGroups ''Cy'' 1 [''Al,Bo'', ''Cy'', [], '':''] = Inr gs \<and> gs ! 2 = '':'')"
proof -
  have h1: "length [''Al,Bo'', ''Cy'', [], '':''] = 4" by simp
  have h2: "(0::int) \<le> 1" and h3: "(1::int) < 4" by simp_all
  have h4: "(2::nat) < 4" and h5: "(2::nat) \<noteq> nat 1" by simp_all
  have h6: "holders ''Cy'' [''Al,Bo'', ''Cy'', [], '':''] \<noteq> []" by code_simp
  have h7: "2 \<noteq> last (holders ''Cy'' [''Al,Bo'', ''Cy'', [], '':''])" by code_simp
  from other_groups_pass_through[OF h1 h2 h3 h4 h5, of "''Cy''"] h6 h7 show ?thesis
    by auto
qed

text \<open>
  Claim C3 says that two clicks on the same index by an absent user restore the state.
  A user text that contains the separator is appended as one text and read back as
  two tokens, so the second click does not find the user and appends again.
\<close>

theorem toggle_twice_counterexample:
  "wf_groups ['':'', '':'', '':'', '':'']
   \<and> holders ''a, b'' ['':'', '':'', '':'', '':''] = []
   \<and> updateGroups ''a, b'' 0 ['':'', '':'', '':'', '':''] = Inr [''a, b'', '':'', '':'', '':'']
   \<and> updateGroups ''a, b'' 0 [''a, b'', '':'', '':'', '':'']
       = Inr [''a, b, a, b'', '':'', '':'', '':'']"
  by code_simp

text \<open>
  Claim C3, amended. On a well-formed state where no group holds the user, with a user
  text that does not contain \<open>'', ''\<close> and a target index from 0 to 3, two calls of
  \<open>updateGroups\<close> with the same user and index return the four original texts, in which
  the user is in no group.
\<close>

theorem toggle_twice:
  assumes "wf_groups groups" and "holders user groups = []"
    and "\<not> sublist '', '' user" and "0 \<le> index" and "index < 4"
  shows "\<exists>gs gs'. updateGroups user index groups = Inr gs
           \<and> updateGroups user index gs = Inr gs'
           \<and> gs' = groups \<and> holders user gs' = []"
proof -
  let ?n = "nat index"
  let ?gs = "groups[?n := appendUser (groups ! ?n) user]"
  have len: "length groups = 4" using assms(1) by (simp add: wf_groups_def)
  have n: "?n < 4" using assms(4,5) by simp
  have first: "updateGroups user index groups = Inr ?gs"
    using updateGroups_fresh[OF len assms(2), of index] assms(4,5) len
    by (simp add: append_at_def)
  have absent: "user \<notin> set (tokens (groups ! i))" if "i < 4" for i
    using assms(2) that len by (simp add: holders_empty_iff contains_iff)
  have tn: "tokens (?gs ! ?n) = (if groups ! ?n = '':'' then [user] else tokens (groups ! ?n) @ [user])"
    using n len by (simp add: tokens_appendUser[OF assms(3)])
  have len': "length ?gs = 4" using len by simp
  have "holders user ?gs \<noteq> [] \<and> last (holders user ?gs) = ?n"
  proof (rule last_holder_unique)
    show "?n < length ?gs" using n len by simp
    show "user \<in> set (tokens (?gs ! ?n))" using tn by simp
    show "\<forall>i<length ?gs. i \<noteq> ?n \<longrightarrow> user \<notin> set (tokens (?gs ! i))"
      using absent len by simp
  qed
  then have ne: "holders user ?gs \<noteq> []" and last: "last (holders user ?gs) = ?n"
    by simp_all
  have idx: "index = int (last (holders user ?gs))" using last assms(4) by simp
  obtain gs' where gs': "updateGroups user index ?gs = Inr gs'" "length gs' = 4"
    and gs0: "\<forall>i<4. gs' ! i =
        (if i = nat index \<and> index \<noteq> int (last (holders user ?gs))
         then appendUser (rejoined user ?gs ! i) user
         else rejoined user ?gs ! i)"
    using updateGroups_found_nth[OF len' ne assms(4,5)] by blast
  have gs3: "\<forall>i<4. gs' ! i = rejoined user ?gs ! i"
    using gs0 idx by presburger
  have rm: "remove1 user (tokens (?gs ! ?n))
      = (if groups ! ?n = '':'' then [] else tokens (groups ! ?n))"
    using absent[OF n] by (simp add: tn remove1_append)
  have restored: "serialize (remove1 user (tokens (?gs ! ?n))) = groups ! ?n"
    using wf_groups_nth[OF assms(1) n]
    by (simp add: rm serialize_tokens) (simp add: serialize_def)
  have "gs' = groups"
  proof (rule nth_equalityI)
    show "length gs' = length groups" using gs'(2) len by simp
  next
    fix i assume "i < length gs'"
    then have i: "i < 4" using gs'(2) by simp
    show "gs' ! i = groups ! i"
    proof (cases "i = ?n")
      case True
      have "gs' ! ?n = rejoined user ?gs ! ?n" using gs3 n by simp
      also have "\<dots> = serialize (remove1 user (tokens (?gs ! ?n)))"
        using n len' last by (simp add: rejoined_nth)
      finally show ?thesis using restored True by simp
    next
      case False
      have "gs' ! i = rejoined user ?gs ! i" using gs3 i by simp
      also have "\<dots> = groups ! i"
        using i len' last False wf_groups_nth[OF assms(1) i]
        by (simp add: rejoined_nth)
      finally show ?thesis .
    qed
  qed
  with first gs'(1) assms(2) show ?thesis by simp
qed

theorem toggle_twice_witness:
  "wf_groups [''Al, Bo'', '':'', '':'', '':''] \<and> holders ''Cy'' [''Al, Bo'', '':'', '':'', '':''] = []
   \<and> \<not> sublist '', '' ''Cy'' \<and> (0::int) \<le> 0 \<and> (0::int) < 4
   \<and> (\<exists>gs. updateGroups ''Cy'' 0 [''Al, Bo'', '':'', '':'', '':''] = Inr gs
          \<and> updateGroups ''Cy'' 0 gs = Inr [''Al, Bo'', '':'', '':'', '':''])
   \<and> updateGroups ''Cy'' 0 [''Al, Bo'', '':'', '':'', '':'']
       = Inr [''Al, Bo, Cy'', '':'', '':'', '':'']"
proof -
  have h1: "wf_groups [''Al, Bo'', '':'', '':'', '':'']" by code_simp
  have h2: "holders ''Cy'' [''Al, Bo'', '':'', '':'', '':''] = []" by code_simp
  have h3: "\<not> sublist '', '' ''Cy''" by code_simp
  have h4: "(0::int) \<le> 0" and h5: "(0::int) < 4" by simp_all
  have f: "updateGroups ''Cy'' 0 [''Al, Bo'', '':'', '':'', '':'']
       = Inr [''Al, Bo, Cy'', '':'', '':'', '':'']" by code_simp
  from toggle_twice[OF h1 h2 h3 h4 h5] h1 h2 h3 f show ?thesis
    by auto
qed

text \<open>
  Claim C2 lets any text other than the placeholder be a mention. The user text
  \<open>''a, b''\<close> is read back as the tokens \<open>a\<close> and \<open>b\<close>; entered into groups 0 and 1, it
  leaves the user \<open>a\<close>, after that user's own click on index 2, in groups 0 and 2.
  The same happens with texts of the shape \<open><@ID>\<close> that the handler builds.
\<close>

theorem one_group_per_user_counterexample:
  "run_events ['':'', '':'', '':'', '':''] [(''a, b'', 0), (''a, b'', 1), (''a'', 2)]
     = Inr [''a, b'', ''b'', ''a'', '':'']
   \<and> holders ''a'' [''a, b'', ''b'', ''a'', '':''] = [0, 2]
   \<and> run_events ['':'', '':'', '':'', '':'']
         [(''<@x>, y>'', 0), (''<@x>, y>'', 1), (''<@x>'', 2)]
     = Inr [''<@x>, y>'', ''y>'', ''<@x>'', '':'']
   \<and> holders ''<@x>'' [''<@x>, y>'', ''y>'', ''<@x>'', '':''] = [0, 2]"
  by code_simp

text \<open>
  Claim C2, amended. Starting from four placeholders, for every sequence of clicks whose
  user texts are not the placeholder and do not contain \<open>'', ''\<close> and whose indices are
  from 0 to 3, after each click (after every prefix of the sequence) \<open>updateGroups\<close> has
  returned without a panic and every text other than the placeholder is a token of at
  most one of the four groups.
\<close>

theorem one_group_per_user:
  assumes "\<forall>e \<in> set events. fst e \<noteq> '':'' \<and> \<not> sublist '', '' (fst e) \<and> 0 \<le> snd e \<and> snd e \<le> 3"
    and "n \<le> length events"
  shows "\<exists>gs. run_events ['':'', '':'', '':'', '':''] (take n events) = Inr gs
           \<and> (\<forall>u. u \<noteq> '':'' \<longrightarrow> length (holders u gs) \<le> 1)"
proof -
  have "\<forall>e \<in> set (take n events).
      fst e \<noteq> '':'' \<and> \<not> sublist '', '' (fst e) \<and> 0 \<le> snd e \<and> snd e \<le> 3"
    using assms(1) by (meson in_set_takeD)
  with separated_init obtain gs where
    "run_events ['':'', '':'', '':'', '':''] (take n events) = Inr gs" "separated gs"
    using run_events_separated by blast
  then show ?thesis using separated_holders by blast
qed

theorem one_group_per_user_witness:
  "(\<exists>gs. run_events ['':'', '':'', '':'', '':''] (take 3 [(''Al'', 0), (''Bo'', 0), (''Al'', 2)]) = Inr gs
        \<and> gs = [''Bo'', '':'', ''Al'', '':''] \<and> length (holders ''Al'' gs) \<le> 1)"
proof -
  have h1: "\<forall>e \<in> set [(''Al'', 0), (''Bo'', 0), (''Al'', 2::int)].
      fst e \<noteq> '':'' \<and> \<not> sublist '', '' (fst e) \<and> 0 \<le> snd e \<and> snd e \<le> 3"
    by code_simp
  have h2: "3 \<le> length [(''Al'', 0), (''Bo'', 0), (''Al'', 2::int)]" by simp
  have r: "run_events ['':'', '':'', '':'', '':''] (take 3 [(''Al'', 0), (''Bo'', 0), (''Al'', 2)])
      = Inr [''Bo'', '':'', ''Al'', '':'']" by code_simp
  from one_group_per_user[OF h1 h2] show ?thesis
    unfolding r by auto
qed

text \<open>
  Claim C8. For a request that passed the signature check: an interaction payload whose
  type is neither \<open>block_actions\<close> nor \<open>view_submission\<close> makes \<open>ModalHandler\<close> return
  without a client call and without writing a status, which the server answers with
  200; a slash command other than \<open>/poll\<close> makes \<open>SlashHandler\<close> write status 500 and
  make no client call, so no view is opened.
\<close>

theorem unknown_input_policies:
  assumes "verified r" and "interaction r = Some i"
    and "iType i \<noteq> ''block_actions''" and "iType i \<noteq> ''view_submission''"
    and "verified r'" and "slashCommand r' = Some s" and "scCommand s \<noteq> ''/poll''"
  shows "ModalHandler c r = Inr (None, []) \<and> statusCode None = 200
       \<and> SlashHandler c r' = (Some StatusInternalServerError, [])
       \<and> statusCode (Some StatusInternalServerError) = 500"
  using assms
  by (simp add: ModalHandler_def SlashHandler_def statusCode_def StatusInternalServerError_def)

theorem unknown_input_policies_witness:
  "ModalHandler okClient
     \<lparr>verified = True, slashCommand = None,
      interaction = Some \<lparr>iType = ''shortcut'', userID = ''U1'', channelID = ''C1'',
        messageTimestamp = [], messageBlocks = [], blockActions = [], viewState = None\<rparr>\<rparr>
     = Inr (None, [])
   \<and> SlashHandler okClient
     \<lparr>verified = True,
      slashCommand = Some \<lparr>scCommand = ''/vote'', scTriggerID = ''T1''\<rparr>,
      interaction = None\<rparr>
     = (Some 500, [])"
proof -
  let ?i = "\<lparr>iType = ''shortcut'', userID = ''U1'', channelID = ''C1'',
        messageTimestamp = [], messageBlocks = [], blockActions = [], viewState = None\<rparr>"
  let ?r = "\<lparr>verified = True, slashCommand = None, interaction = Some ?i\<rparr>"
  let ?s = "\<lparr>scCommand = ''/vote'', scTriggerID = ''T1''\<rparr>"
  let ?r' = "\<lparr>verified = True, slashCommand = Some ?s, interaction = None\<rparr>"
  have h1: "verified ?r" and h2: "interaction ?r = Some ?i" by simp_all
  have h3: "iType ?i \<noteq> ''block_actions''" and h4: "iType ?i \<noteq> ''view_submission''"
    by simp_all
  have h5: "verified ?r'" and h6: "slashCommand ?r' = Some ?s" by simp_all
  have h7: "scCommand ?s \<noteq> ''/poll''" by simp
  from unknown_input_policies[OF h1 h2 h3 h4 h5 h6 h7, of okClient] show ?thesis
    by (simp add: StatusInternalServerError_def)
qed




end
